theory Spec2Isabelle
  imports
    Complex_Main
    "HOL-Library.Multiset"
begin

section \<open>Strings\<close>

text \<open>
  JavaScript strings are modelled as \<^typ>\<open>string\<close>, one \<^typ>\<open>char\<close> per code unit,
  for the code units U+0000 to U+00FF. Among these, the white space that \<open>trim\<close>
  strips and that the class \<open>\s\<close> matches is tab, line feed, vertical tab, form feed,
  carriage return, space and the no-break space U+00A0.
\<close>

definition isSpace :: "char \<Rightarrow> bool" where
  "isSpace c = (c = CHR 0x09 \<or> c = CHR 0x0A \<or> c = CHR 0x0B \<or> c = CHR 0x0C
                \<or> c = CHR 0x0D \<or> c = CHR 0x20 \<or> c = CHR 0xA0)"

text \<open>
  \<open>toLowerCase\<close> works code unit by code unit in this range: it moves \<open>A\<close>..\<open>Z\<close>
  (65 to 90) and the accented capitals U+00C0 to U+00DE, the multiplication sign
  U+00D7 apart, 32 places up, and leaves every other code unit as it is.
\<close>

definition lowerChar :: "char \<Rightarrow> char" where
  "lowerChar c =
     (let n = (of_char c :: nat)
      in if (65 \<le> n \<and> n \<le> 90) \<or> (192 \<le> n \<and> n \<le> 222 \<and> n \<noteq> 215)
         then char_of (n + 32) else c)"

definition toLowerCase :: "string \<Rightarrow> string" where
  "toLowerCase s = map lowerChar s"

definition trim :: "string \<Rightarrow> string" where
  "trim s = rev (dropWhile isSpace (rev (dropWhile isSpace s)))"

fun startsWith :: "string \<Rightarrow> string \<Rightarrow> bool" where
  "startsWith s [] = True"
| "startsWith [] (c # cs) = False"
| "startsWith (d # ds) (c # cs) = (d = c \<and> startsWith ds cs)"

text \<open>\<open>hay.includes(needle)\<close>: does \<open>needle\<close> occur in \<open>hay\<close> at some position?\<close>

fun str_includes :: "string \<Rightarrow> string \<Rightarrow> bool" where
  "str_includes [] needle = (needle = [])"
| "str_includes (c # cs) needle = (startsWith (c # cs) needle \<or> str_includes cs needle)"

text \<open>\<open>parts.join(sep)\<close>\<close>

fun join :: "string \<Rightarrow> string list \<Rightarrow> string" where
  "join sep [] = []"
| "join sep [x] = x"
| "join sep (x # y # ys) = x @ sep @ join sep (y # ys)"

section \<open>Records, filters and the application state\<close>

record user =
  user_id :: int
  user_first :: string
  user_last :: string
  user_email :: string
  user_department :: string

record filters =
  f_first :: string
  f_last :: string
  f_email :: string
  f_department :: string

text \<open>
  \<open>state.totalPages\<close> is a JavaScript number: with a page size of 0 the quotient
  \<open>length / perPage\<close> is \<open>Infinity\<close>, or \<open>NaN\<close> for an empty list, and \<open>Math.max\<close>
  keeps either.
\<close>

datatype jsnum = Fin nat | Infinity | NaN

text \<open>
  The \<open>state\<close> object. Identifiers are JavaScript numbers with an integer value;
  they are compared exactly, and the one place where the script computes with them
  is \<open>addOne\<close> below. The page number and the page size are natural numbers, the
  page size being whatever the page-size control offers.
\<close>

record state =
  users :: "user list"
  filtered :: "user list"
  page :: nat
  perPage :: nat
  totalPages :: jsnum
  sortKey :: "string option"
  sortDir :: int
  filters :: filters
  search :: string

section \<open>The view pipeline: filtering and searching\<close>

text \<open>
  The callback of \<open>state.users.filter\<close> in \<open>applyAllFilters\<close>, with \<open>s\<close> the trimmed,
  lower-cased search term computed before the call. An empty string is falsy, so an
  empty filter is skipped.
\<close>

definition filterCallback :: "filters \<Rightarrow> string \<Rightarrow> user \<Rightarrow> bool" where
  "filterCallback fl s u =
     (if f_first fl \<noteq> [] \<and> \<not> str_includes (toLowerCase (user_first u)) (toLowerCase (f_first fl))
      then False
      else if f_last fl \<noteq> [] \<and> \<not> str_includes (toLowerCase (user_last u)) (toLowerCase (f_last fl))
      then False
      else if f_email fl \<noteq> [] \<and> \<not> str_includes (toLowerCase (user_email u)) (toLowerCase (f_email fl))
      then False
      else if f_department fl \<noteq> []
              \<and> \<not> str_includes (toLowerCase (user_department u)) (toLowerCase (f_department fl))
      then False
      else if s \<noteq> []
      then (let combined =
                  toLowerCase (join '' '' [user_first u, user_last u, user_email u, user_department u])
            in if \<not> str_includes combined s then False else True)
      else True)"

definition filterStep :: "user list \<Rightarrow> filters \<Rightarrow> string \<Rightarrow> user list" where
  "filterStep us fl q =
     (let s = toLowerCase (trim q) in filter (filterCallback fl s) us)"

section \<open>The view pipeline: sorting\<close>

text \<open>
  \<open>va < vb\<close> on two strings compares them code unit by code unit; a proper prefix
  is smaller.
\<close>

fun strLess :: "string \<Rightarrow> string \<Rightarrow> bool" where
  "strLess [] [] = False"
| "strLess [] (y # ys) = True"
| "strLess (x # xs) [] = False"
| "strLess (x # xs) (y # ys) =
     ((of_char x :: nat) < of_char y \<or> (x = y \<and> strLess xs ys))"

text \<open>
  \<open>a[key]\<close> for the keys the table header can carry; any other key reads
  \<open>undefined\<close>, which \<open>|| ""\<close> turns into the empty string. The identifier is
  handled apart, in \<open>sortValue\<close>.
\<close>

definition getProp :: "user \<Rightarrow> string \<Rightarrow> string" where
  "getProp a key =
     (if key = ''first'' then user_first a
      else if key = ''last'' then user_last a
      else if key = ''email'' then user_email a
      else if key = ''department'' then user_department a
      else [])"

datatype sortval = SNum int | SStr string

text \<open>The values \<open>va\<close>, \<open>vb\<close> the comparator computes for a record.\<close>

definition sortValue :: "string \<Rightarrow> user \<Rightarrow> sortval" where
  "sortValue key a =
     (if key = ''id'' then SNum (user_id a) else SStr (toLowerCase (getProp a key)))"

fun lessVal :: "sortval \<Rightarrow> sortval \<Rightarrow> bool" where
  "lessVal (SNum x) (SNum y) = (x < y)"
| "lessVal (SStr x) (SStr y) = strLess x y"
| "lessVal _ _ = False"

text \<open>The comparator passed to \<open>state.filtered.sort\<close>.\<close>

definition compareUsers :: "string \<Rightarrow> int \<Rightarrow> user \<Rightarrow> user \<Rightarrow> int" where
  "compareUsers key dir a b =
     (let va = sortValue key a; vb = sortValue key b
      in if lessVal va vb then -1 * dir
         else if lessVal vb va then 1 * dir
         else 0)"

text \<open>
  \<open>Array.prototype.sort(comparefn)\<close> is a stable sort (ECMAScript 2019): an element
  moves in front of another only when the comparator says it is smaller. It is
  modelled by insertion from the right: each element is inserted into the sorted rest
  and passes exactly the elements it compares greater than.
\<close>

fun insertBy :: "('a \<Rightarrow> 'a \<Rightarrow> int) \<Rightarrow> 'a \<Rightarrow> 'a list \<Rightarrow> 'a list" where
  "insertBy cmp x [] = [x]"
| "insertBy cmp x (y # ys) = (if cmp x y \<le> 0 then x # y # ys else y # insertBy cmp x ys)"

definition arraySort :: "('a \<Rightarrow> 'a \<Rightarrow> int) \<Rightarrow> 'a list \<Rightarrow> 'a list" where
  "arraySort cmp xs = foldr (insertBy cmp) xs []"

text \<open>\<open>state.sortKey\<close> is \<open>null\<close> or a string; \<open>null\<close> and the empty string are falsy.\<close>

definition sortStep :: "string option \<Rightarrow> int \<Rightarrow> user list \<Rightarrow> user list" where
  "sortStep k dir xs =
     (case k of
        None \<Rightarrow> xs
      | Some key \<Rightarrow> if key = [] then xs else arraySort (compareUsers key dir) xs)"

section \<open>The view pipeline: pagination\<close>

definition ceilDiv :: "nat \<Rightarrow> nat \<Rightarrow> nat" where
  "ceilDiv n p = (if n mod p = 0 then n div p else n div p + 1)"

definition totalPagesOf :: "nat \<Rightarrow> nat \<Rightarrow> jsnum" where
  "totalPagesOf n p =
     (if p = 0 then (if n = 0 then NaN else Infinity)
      else Fin (max 1 (ceilDiv n p)))"

text \<open>\<open>page > totalPages\<close> and \<open>page >= totalPages\<close>; every comparison with \<open>NaN\<close> is false.\<close>

fun gtNum :: "nat \<Rightarrow> jsnum \<Rightarrow> bool" where
  "gtNum n (Fin t) = (n > t)"
| "gtNum n Infinity = False"
| "gtNum n NaN = False"

fun geNum :: "nat \<Rightarrow> jsnum \<Rightarrow> bool" where
  "geNum n (Fin t) = (n \<ge> t)"
| "geNum n Infinity = False"
| "geNum n NaN = False"

text \<open>\<open>xs.slice(start, end)\<close>, negative indices counting from the end.\<close>

definition slice :: "'a list \<Rightarrow> int \<Rightarrow> int \<Rightarrow> 'a list" where
  "slice xs start end =
     (let len = int (length xs);
          k = (if start < 0 then max (len + start) 0 else min start len);
          final = (if end < 0 then max (len + end) 0 else min end len)
      in take (nat (final - k)) (drop (nat k) xs))"

text \<open>
  What \<open>renderTable\<close> writes to the page: the rows of the current page (no row
  stands for the "No users found" line), the three numbers of the "Showing" line, the
  page indicator and the state of the two page buttons.
\<close>

record view =
  rows :: "user list"
  showingFrom :: int
  showingTo :: int
  showingOf :: nat
  pageInfo :: "nat \<times> jsnum"
  prevDisabled :: bool
  nextDisabled :: bool

definition renderTable :: "state \<Rightarrow> view" where
  "renderTable s =
     (let start = (int (page s) - 1) * int (perPage s);
          pageItems = slice (filtered s) start (start + int (perPage s));
          len = int (length (filtered s))
      in \<lparr>rows = pageItems,
          showingFrom = min len (start + 1),
          showingTo = min len (start + int (length pageItems)),
          showingOf = length (filtered s),
          pageInfo = (page s, totalPages s),
          prevDisabled = (page s \<le> 1),
          nextDisabled = geNum (page s) (totalPages s)\<rparr>)"

text \<open>
  \<open>applyAllFilters\<close>: filter and search, sort, recompute the page count, reset the page
  when it lies beyond the last one. The function returns the new state; the table it
  renders is \<open>renderTable\<close> of that state.
\<close>

definition applyAllFilters :: "state \<Rightarrow> state" where
  "applyAllFilters s =
     (let fs = sortStep (sortKey s) (sortDir s) (filterStep (users s) (filters s) (search s));
          tp = totalPagesOf (length fs) (perPage s)
      in s\<lparr>filtered := fs,
           totalPages := tp,
           page := (if gtNum (page s) tp then 1 else page s)\<rparr>)"

section \<open>The record normalizer\<close>

text \<open>
  A raw record of the remote service, \<open>{id, name, email, company: {name}}\<close>; a
  property that is missing is \<open>None\<close>.
\<close>

record company =
  company_name :: "string option"

record apiUser =
  api_id :: int
  api_name :: "string option"
  api_email :: "string option"
  api_company :: "company option"

text \<open>
  \<open>str.split(/\s+/)\<close>: the string is cut at every maximal run of white space; a run
  at the very start or the very end leaves an empty piece there, and the empty string
  gives one empty piece. \<open>cur\<close> holds the piece being read.
\<close>

function splitWs :: "string \<Rightarrow> string \<Rightarrow> string list" where
  "splitWs cur [] = [cur]"
| "splitWs cur (c # cs) =
     (if isSpace c then cur # splitWs [] (dropWhile isSpace cs)
      else splitWs (cur @ [c]) cs)"
  by pat_completeness auto
termination
  by (relation "measure (\<lambda>(cur, s). length s)")
     (auto simp: length_dropWhile_le less_Suc_eq_le)

definition splitName :: "string option \<Rightarrow> string \<times> string" where
  "splitName full =
     (case full of
        None \<Rightarrow> ([], [])
      | Some f \<Rightarrow>
          if f = [] then ([], [])
          else (let parts = splitWs [] (trim f)
                in (case parts of [] \<Rightarrow> [] | p # _ \<Rightarrow> p, join '' '' (drop 1 parts))))"

definition makeUserFromAPI :: "apiUser \<Rightarrow> user" where
  "makeUserFromAPI u =
     (let (first, last) = splitName (api_name u)
      in \<lparr>user_id = api_id u,
          user_first = first,
          user_last = last,
          user_email = (case api_email u of None \<Rightarrow> [] | Some e \<Rightarrow> e),
          user_department =
            (case api_company u of
               None \<Rightarrow> []
             | Some c \<Rightarrow> (case company_name c of None \<Rightarrow> [] | Some n \<Rightarrow> n))\<rparr>)"

section \<open>The email check\<close>

text \<open>
  Regular expressions and \<open>RegExp.prototype.test\<close> for an expression anchored at both
  ends: the string is consumed character by character, each step taking the
  derivative of the expression.
\<close>

datatype rx = Zero | One | Cls "char \<Rightarrow> bool" | Alt rx rx | Seq rx rx | Star rx

fun nullable :: "rx \<Rightarrow> bool" where
  "nullable Zero = False"
| "nullable One = True"
| "nullable (Cls P) = False"
| "nullable (Alt r s) = (nullable r \<or> nullable s)"
| "nullable (Seq r s) = (nullable r \<and> nullable s)"
| "nullable (Star r) = True"

fun deriv :: "char \<Rightarrow> rx \<Rightarrow> rx" where
  "deriv c Zero = Zero"
| "deriv c One = Zero"
| "deriv c (Cls P) = (if P c then One else Zero)"
| "deriv c (Alt r s) = Alt (deriv c r) (deriv c s)"
| "deriv c (Seq r s) =
     (if nullable r then Alt (Seq (deriv c r) s) (deriv c s) else Seq (deriv c r) s)"
| "deriv c (Star r) = Seq (deriv c r) (Star r)"

fun rxTest :: "rx \<Rightarrow> string \<Rightarrow> bool" where
  "rxTest r [] = nullable r"
| "rxTest r (c # cs) = rxTest (deriv c r) cs"

definition Plus :: "rx \<Rightarrow> rx" where
  "Plus r = Seq r (Star r)"

definition Chr :: "char \<Rightarrow> rx" where
  "Chr c = Cls (\<lambda>d. d = c)"

text \<open>The class \<open>[^\s@]\<close>.\<close>

definition notSpaceAt :: "char \<Rightarrow> bool" where
  "notSpaceAt c = (\<not> isSpace c \<and> c \<noteq> CHR ''@'')"

text \<open>\<open>/^[^\s@]+@[^\s@]+\.[^\s@]+$/\<close>\<close>

definition emailRx :: rx where
  "emailRx =
     Seq (Plus (Cls notSpaceAt))
       (Seq (Chr CHR ''@'')
         (Seq (Plus (Cls notSpaceAt))
           (Seq (Chr CHR ''.'') (Plus (Cls notSpaceAt)))))"

definition validateEmail :: "string \<Rightarrow> bool" where
  "validateEmail email = rxTest emailRx email"

section \<open>The mutation coordinator\<close>

text \<open>
  The outcome of a \<open>fetch\<close>: the promise is rejected (no response, or a body that
  cannot be read), or there is a response with a status and a body. \<open>res.ok\<close> holds
  for the statuses 200 to 299.
\<close>

datatype 'a response = NetworkError | Response nat 'a

definition ok :: "nat \<Rightarrow> bool" where
  "ok status = (200 \<le> status \<and> status \<le> 299)"

datatype failure = NetworkFailure | BadStatus nat

text \<open>
  The texts shown to the user: "Error loading users: ...", "First name and Email are
  required.", "Invalid email address.", "API error: ...", "Delete failed: ...".
\<close>

datatype message =
  LoadError failure | FieldsRequired | InvalidEmail | ApiError failure | DeleteError failure

text \<open>
  The state of the page: the \<open>state\<close> object, the variable \<open>editingId\<close>, and the
  texts of the form error and of the error banner when they are shown.
\<close>

record app =
  st :: state
  editingId :: "int option"
  formError :: "message option"
  errorBanner :: "message option"

text \<open>The four input fields of the edit form, as typed.\<close>

record form =
  firstName :: string
  lastName :: string
  email :: string
  department :: string

text \<open>The trimmed fields, that is \<open>localUser\<close> without its identifier.\<close>

record draft =
  d_first :: string
  d_last :: string
  d_email :: string
  d_department :: string

definition withId :: "int \<Rightarrow> draft \<Rightarrow> user" where
  "withId i d = \<lparr>user_id = i, user_first = d_first d, user_last = d_last d,
                 user_email = d_email d, user_department = d_department d\<rparr>"

text \<open>
  The part of the body of a PUT request that depends on the form; the telephone
  number, the web site and the address are constants.
\<close>

record putPayload =
  put_id :: int
  put_name :: string
  put_email :: string
  put_username :: string
  put_company :: string

text \<open>
  A request the submit handler has sent, together with the \<open>localUser\<close> its
  continuation keeps: \<open>Put eid payload d\<close> is a PUT to \<open>/users/eid\<close> with
  \<open>localUser\<close> the draft \<open>d\<close> under the identifier \<open>eid\<close>; \<open>Post d\<close> is a POST of
  the draft, whose identifier is still \<open>null\<close>.
\<close>

datatype request = Put int putPayload draft | Post draft

definition loadUsers :: "app \<Rightarrow> apiUser list response \<Rightarrow> app" where
  "loadUsers a res =
     (case res of
        NetworkError \<Rightarrow> a\<lparr>errorBanner := Some (LoadError NetworkFailure)\<rparr>
      | Response status data \<Rightarrow>
          if \<not> ok status then a\<lparr>errorBanner := Some (LoadError (BadStatus status))\<rparr>
          else a\<lparr>st := applyAllFilters ((st a)\<lparr>users := map makeUserFromAPI data\<rparr>)\<rparr>)"

definition openEditModal :: "int option \<Rightarrow> app \<Rightarrow> app" where
  "openEditModal i a = a\<lparr>editingId := i, formError := None\<rparr>"

definition closeEditModal :: "app \<Rightarrow> app" where
  "closeEditModal a = a\<lparr>editingId := None\<rparr>"

definition readForm :: "form \<Rightarrow> draft" where
  "readForm f = \<lparr>d_first = trim (firstName f), d_last = trim (lastName f),
                  d_email = trim (email f), d_department = trim (department f)\<rparr>"

text \<open>The two checks at the head of the submit handler.\<close>

definition validate :: "draft \<Rightarrow> message option" where
  "validate d =
     (if d_first d = [] \<or> d_email d = [] then Some FieldsRequired
      else if \<not> validateEmail (d_email d) then Some InvalidEmail
      else None)"

definition fullPayload :: "int \<Rightarrow> draft \<Rightarrow> putPayload" where
  "fullPayload i d =
     \<lparr>put_id = i,
      put_name = trim (d_first d @ '' '' @ d_last d),
      put_email = d_email d,
      put_username = (if toLowerCase (d_first d) = [] then ''user'' else toLowerCase (d_first d)),
      put_company = (if d_department d = [] then ''N/A'' else d_department d)\<rparr>"

text \<open>
  The submit handler up to its \<open>await\<close>: it hides the form error, reads the form,
  and either shows a form error and returns, or sends one request, a PUT when
  \<open>editingId\<close> is truthy (a number other than 0) and a POST otherwise. The result is
  the state it leaves and the request it has sent, if any.
\<close>

definition submitStart :: "app \<Rightarrow> form \<Rightarrow> app \<times> request option" where
  "submitStart a f =
     (let a0 = a\<lparr>formError := None\<rparr>; d = readForm f
      in case validate d of
           Some m \<Rightarrow> (a0\<lparr>formError := Some m\<rparr>, None)
         | None \<Rightarrow>
             (case editingId a of
                None \<Rightarrow> (a0, Some (Post d))
              | Some eid \<Rightarrow>
                  if eid \<noteq> 0 then (a0, Some (Put eid (fullPayload eid d) d))
                  else (a0, Some (Post d))))"

text \<open>\<open>Math.max(0, ...state.users.map((u) => u.id))\<close>\<close>

definition maxId :: "user list \<Rightarrow> int" where
  "maxId us = foldl max 0 (map user_id us)"

text \<open>
  \<open>x + 1\<close> for a number \<open>x \<ge> 0\<close> with an integer value, in double precision. Below
  \<open>2^53\<close> the sum is exact. From \<open>2^53\<close> to \<open>2^54\<close> the numbers are the even
  integers, \<open>x + 1\<close> lies half way between two of them and is rounded to the one
  whose significand \<open>x div 2\<close> (or its successor) is even. From \<open>2^54\<close> on the sum
  is rounded back to \<open>x\<close>.
\<close>

definition addOne :: "int \<Rightarrow> int" where
  "addOne x =
     (if x < 2 ^ 53 then x + 1
      else if x < 2 ^ 54 then (if even (x div 2) then x else x + 2)
      else x)"

text \<open>
  \<open>ret.id || Math.max(...) + 1\<close>: the identifier of the response body unless it is
  missing or 0.
\<close>

definition newIdOf :: "int option \<Rightarrow> user list \<Rightarrow> int" where
  "newIdOf retId us =
     (case retId of
        None \<Rightarrow> addOne (maxId us)
      | Some i \<Rightarrow> if i \<noteq> 0 then i else addOne (maxId us))"

text \<open>\<open>Number(editingId)\<close>; \<open>Number(null)\<close> is 0.\<close>

definition numberOf :: "int option \<Rightarrow> int" where
  "numberOf i = (case i of None \<Rightarrow> 0 | Some n \<Rightarrow> n)"

text \<open>
  The submit handler after its \<open>await\<close>, with the outcome \<open>res\<close> of the request (the
  body of a response carries the \<open>id\<close> property of the returned object, if any).
  \<open>a\<close> is the state at that moment: other handlers may have run while the request
  was pending. The continuation keeps \<open>localUser\<close> from before the request, but reads
  \<open>state.users\<close> and \<open>editingId\<close> anew.
\<close>

definition submitFinish :: "app \<Rightarrow> request \<Rightarrow> int option response \<Rightarrow> app" where
  "submitFinish a r res =
     (case r of
        Put eid payload d \<Rightarrow>
          (case res of
             NetworkError \<Rightarrow> a\<lparr>formError := Some (ApiError NetworkFailure)\<rparr>
           | Response status body \<Rightarrow>
               if \<not> ok status then a\<lparr>formError := Some (ApiError (BadStatus status))\<rparr>
               else closeEditModal
                      (a\<lparr>st := applyAllFilters
                              ((st a)\<lparr>users :=
                                 map (\<lambda>u. if user_id u = numberOf (editingId a) then withId eid d
                                           else u)
                                   (users (st a))\<rparr>)\<rparr>))
      | Post d \<Rightarrow>
          (case res of
             NetworkError \<Rightarrow> a\<lparr>formError := Some (ApiError NetworkFailure)\<rparr>
           | Response status retId \<Rightarrow>
               if \<not> ok status then a\<lparr>formError := Some (ApiError (BadStatus status))\<rparr>
               else (let newId = newIdOf retId (users (st a))
                     in closeEditModal
                          (a\<lparr>st := applyAllFilters
                                  ((st a)\<lparr>users := withId newId d # users (st a)\<rparr>)\<rparr>))))"

text \<open>A submission during which nothing else runs.\<close>

definition submit :: "app \<Rightarrow> form \<Rightarrow> int option response \<Rightarrow> app" where
  "submit a f res =
     (case submitStart a f of
        (a1, None) \<Rightarrow> a1
      | (a1, Some r) \<Rightarrow> submitFinish a1 r res)"

text \<open>
  The delete button of a row: \<open>confirmed\<close> is the answer to the confirmation prompt,
  \<open>res\<close> the outcome of the DELETE request, \<open>a\<close> the state when it arrives (the
  identifier is a constant of the handler).
\<close>

definition deleteUser :: "app \<Rightarrow> int \<Rightarrow> bool \<Rightarrow> unit response \<Rightarrow> app" where
  "deleteUser a i confirmed res =
     (if \<not> confirmed then a
      else case res of
             NetworkError \<Rightarrow> a\<lparr>errorBanner := Some (DeleteError NetworkFailure)\<rparr>
           | Response status body \<Rightarrow>
               if \<not> ok status \<and> status \<noteq> 200 \<and> status \<noteq> 204
               then a\<lparr>errorBanner := Some (DeleteError (BadStatus status))\<rparr>
               else a\<lparr>st := applyAllFilters
                             ((st a)\<lparr>users := filter (\<lambda>u. user_id u \<noteq> i) (users (st a))\<rparr>)\<rparr>)"

text \<open>The page as the script leaves it before \<open>init\<close> loads the users.\<close>

definition initialState :: state where
  "initialState = \<lparr>users = [], filtered = [], page = 1, perPage = 10, totalPages = Fin 1,
                    sortKey = None, sortDir = 1,
                    filters = \<lparr>f_first = [], f_last = [], f_email = [], f_department = []\<rparr>,
                    search = []\<rparr>"

definition initialApp :: app where
  "initialApp = \<lparr>st = initialState, editingId = None, formError = None, errorBanner = None\<rparr>"

section \<open>The specification's notions\<close>

subsection \<open>The specification's reading of the filter\<close>

text \<open>
  A case-insensitive substring predicate: the lower-cased needle occurs as a contiguous
  block of the lower-cased haystack.
\<close>

definition containsCI :: "string \<Rightarrow> string \<Rightarrow> bool" where
  "containsCI hay needle =
     (\<exists>pre post. toLowerCase hay = pre @ toLowerCase needle @ post)"

definition satisfiesAll :: "filters \<Rightarrow> string \<Rightarrow> user \<Rightarrow> bool" where
  "satisfiesAll fl q u =
     ((f_first fl = [] \<or> containsCI (user_first u) (f_first fl))
      \<and> (f_last fl = [] \<or> containsCI (user_last u) (f_last fl))
      \<and> (f_email fl = [] \<or> containsCI (user_email u) (f_email fl))
      \<and> (f_department fl = [] \<or> containsCI (user_department u) (f_department fl))
      \<and> (trim q = [] \<or>
           containsCI (user_first u @ '' '' @ user_last u @ '' '' @ user_email u @ '' ''
                        @ user_department u)
                      (trim q)))"

subsection \<open>The specification's reading of the sort\<close>

text \<open>
  The collation of a sort key: the identifier is compared as a number, every other
  field as its lower-cased string, lexicographically by character code.
\<close>

definition charLess :: "(char \<times> char) set" where
  "charLess = {(c, d). (of_char c :: nat) < of_char d}"

definition keyLess :: "string \<Rightarrow> user \<Rightarrow> user \<Rightarrow> bool" where
  "keyLess key a b =
     (if key = ''id'' then user_id a < user_id b
      else (toLowerCase (getProp a key), toLowerCase (getProp b key)) \<in> lexord charLess)"

text \<open>Two records have equal keys when neither is smaller than the other.\<close>

definition sameKey :: "string \<Rightarrow> user \<Rightarrow> user \<Rightarrow> bool" where
  "sameKey key u x = (\<not> keyLess key x u \<and> \<not> keyLess key u x)"

subsection \<open>The specification's reading of the email shape\<close>

text \<open>The language of a regular expression.\<close>

inductive_set star :: "string set \<Rightarrow> string set" for A :: "string set" where
  star_nil: "[] \<in> star A"
| star_step: "u \<in> A \<Longrightarrow> v \<in> star A \<Longrightarrow> u @ v \<in> star A"

definition conc :: "string set \<Rightarrow> string set \<Rightarrow> string set" where
  "conc A B = {u @ v | u v. u \<in> A \<and> v \<in> B}"

fun lang :: "rx \<Rightarrow> string set" where
  "lang Zero = {}"
| "lang One = {[]}"
| "lang (Cls P) = {[c] | c. P c}"
| "lang (Alt r s) = lang r \<union> lang s"
| "lang (Seq r s) = conc (lang r) (lang s)"
| "lang (Star r) = star (lang r)"

text \<open>
  \<open>local-part@domain\<close> with a dot inside the domain: three non-empty blocks free of
  white space and of \<open>@\<close>, the first two separated by \<open>@\<close>, the last two by a dot.
\<close>

definition emailShape :: "string \<Rightarrow> bool" where
  "emailShape e =
     (\<exists>l d t. e = l @ ''@'' @ d @ ''.'' @ t \<and> l \<noteq> [] \<and> d \<noteq> [] \<and> t \<noteq> []
        \<and> (\<forall>c \<in> set (l @ d @ t). \<not> isSpace c \<and> c \<noteq> CHR ''@''))"

subsection \<open>The specification's reading of the normalizer\<close>

text \<open>The white-space-separated tokens of a string: its maximal blocks free of white space.\<close>

function tokens :: "string \<Rightarrow> string list" where
  "tokens [] = []"
| "tokens (c # cs) =
     (if isSpace c then tokens cs
      else (c # takeWhile (\<lambda>d. \<not> isSpace d) cs) # tokens (dropWhile (\<lambda>d. \<not> isSpace d) cs))"
  by pat_completeness auto
termination
  by (relation "measure length") (auto simp: length_dropWhile_le less_Suc_eq_le)

text \<open>A string that does not end in white space.\<close>

definition noTrail :: "string \<Rightarrow> bool" where
  "noTrail s = (s = [] \<or> \<not> isSpace (last s))"

subsection \<open>The specification's reading of the coordinator\<close>

text \<open>The greatest of 0 and the local identifiers.\<close>

definition greatestId :: "user list \<Rightarrow> int" where
  "greatestId us = Max (insert 0 (user_id ` set us))"

text \<open>
  The identifier given to a created record: the one the service returned unless it
  is missing or 0, else one more than the greatest of 0 and the local identifiers.
\<close>

definition specNewId :: "int option \<Rightarrow> user list \<Rightarrow> int" where
  "specNewId retId us =
     (case retId of
        None \<Rightarrow> greatestId us + 1
      | Some i \<Rightarrow> if i = 0 then greatestId us + 1 else i)"

text \<open>No two records of the local collection share an identifier.\<close>

definition idsUnique :: "app \<Rightarrow> bool" where
  "idsUnique a = distinct (map user_id (users (st a)))"

text \<open>The form was opened on a record: \<open>editingId\<close> is a number other than 0.\<close>

definition editing :: "app \<Rightarrow> bool" where
  "editing a = (case editingId a of None \<Rightarrow> False | Some eid \<Rightarrow> eid \<noteq> 0)"

text \<open>
  The continuations of a submission in which identifiers are kept apart: that of a PUT
  when the form still edits the same record as when the request was sent; that of a
  POST when the service returns an identifier other than 0 that no local record has,
  or returns none (or 0) while the greatest local identifier is below \<open>2^53\<close>.
\<close>

definition regular :: "app \<Rightarrow> request \<Rightarrow> int option response \<Rightarrow> bool" where
  "regular a r res =
     (case r of
        Put eid payload d \<Rightarrow> editingId a = Some eid
      | Post d \<Rightarrow>
          (case res of
             NetworkError \<Rightarrow> True
           | Response status retId \<Rightarrow>
               (case retId of
                  None \<Rightarrow> greatestId (users (st a)) < 2 ^ 53
                | Some i \<Rightarrow>
                    if i = 0 then greatestId (users (st a)) < 2 ^ 53
                    else i \<notin> user_id ` set (users (st a)))))"

subsection \<open>Sample data\<close>

definition leanne :: apiUser where
  "leanne = \<lparr>api_id = 1, api_name = Some ''Leanne  Graham Jr'', api_email = None,
              api_company = Some \<lparr>company_name = Some ''Romaguera''\<rparr>\<rparr>"

definition amy2 :: user where
  "amy2 = \<lparr>user_id = 4, user_first = ''AMY'', user_last = ''Ames'',
            user_email = ''a2@x.org'', user_department = ''Gadget''\<rparr>"

definition numbered :: "int \<Rightarrow> user" where
  "numbered i = \<lparr>user_id = i, user_first = ''User'', user_last = [],
                  user_email = ''u@x.org'', user_department = ''Ops''\<rparr>"

definition noFilter :: filters where
  "noFilter = \<lparr>f_first = [], f_last = [], f_email = [], f_department = []\<rparr>"

definition twelve :: state where
  "twelve = \<lparr>users = map numbered [1..12], filtered = [], page = 3, perPage = 10,
              totalPages = Fin 1, sortKey = None, sortDir = 1, filters = noFilter,
              search = []\<rparr>"

definition jane :: user where
  "jane = \<lparr>user_id = 1, user_first = ''Jane'', user_last = ''Doe'',
            user_email = ''jd@x.org'', user_department = ''Widget Co''\<rparr>"

definition bob :: user where
  "bob = \<lparr>user_id = 2, user_first = ''Bob'', user_last = ''Janet'',
           user_email = ''b@x.org'', user_department = ''Gadget''\<rparr>"

definition amy :: user where
  "amy = \<lparr>user_id = 3, user_first = ''amy'', user_last = ''Widgets'',
           user_email = ''amy@x.org'', user_department = ''WIDGET labs''\<rparr>"

definition widgetFilter :: filters where
  "widgetFilter = \<lparr>f_first = [], f_last = [], f_email = [], f_department = ''widget''\<rparr>"

definition janeForm :: form where
  "janeForm = \<lparr>firstName = '' Jane '', lastName = ''Doe'', email = ''jane@mail.example.org '',
                department = ''Widget Co''\<rparr>"

definition blankForm :: form where
  "blankForm = \<lparr>firstName = ''   '', lastName = ''Doe'', email = ''jane@mail.example.org'',
                 department = []\<rparr>"

definition badMailForm :: form where
  "badMailForm = \<lparr>firstName = ''Jane'', lastName = ''Doe'', email = ''jane@mail'',
                   department = []\<rparr>"

definition afterLoad :: app where
  "afterLoad = loadUsers initialApp (Response 200 [leanne])"

definition afterTwoCreates :: app where
  "afterTwoCreates =
     submit (submit afterLoad janeForm (Response 201 (Some 11))) janeForm (Response 201 (Some 11))"

definition raw :: "int \<Rightarrow> apiUser" where
  "raw i = \<lparr>api_id = i, api_name = Some ''User'', api_email = Some ''u@x.org'',
             api_company = Some \<lparr>company_name = Some ''Ops''\<rparr>\<rparr>"

definition elodie :: user where
  "elodie = \<lparr>user_id = 5, user_first = CHR 0xC9 # ''lodie'', user_last = ''Roy'',
              user_email = ''er@x.org'', user_department = ''Gadget''\<rparr>"

definition agnes :: user where
  "agnes = \<lparr>user_id = 6, user_first = CHR 0xE0 # ''gnes'', user_last = ''Roy'',
             user_email = ''ar@x.org'', user_department = ''Gadget''\<rparr>"

definition accentFilter :: filters where
  "accentFilter = \<lparr>f_first = [CHR 0xE9], f_last = [], f_email = [], f_department = []\<rparr>"

definition byFirstDown :: state where
  "byFirstDown = \<lparr>users = [bob, amy2, jane, amy], filtered = [], page = 1, perPage = 10,
                   totalPages = Fin 1, sortKey = Some ''first'', sortDir = - 1,
                   filters = noFilter, search = []\<rparr>"

definition byFirstUp :: state where
  "byFirstUp = \<lparr>users = [elodie, agnes], filtered = [], page = 1, perPage = 10,
                 totalPages = Fin 1, sortKey = Some ''first'', sortDir = 1,
                 filters = noFilter, search = []\<rparr>"

definition leanneNb :: apiUser where
  "leanneNb = \<lparr>api_id = 2, api_name = Some (''Leanne'' @ [CHR 0xA0] @ ''Graham''),
                api_email = Some ''lg@x.org'', api_company = None\<rparr>"

definition nbMailForm :: form where
  "nbMailForm = \<lparr>firstName = ''Jane'', lastName = ''Doe'',
                  email = ''a'' @ [CHR 0xA0] @ ''b@c.d'', department = []\<rparr>"

definition nbLeadForm :: form where
  "nbLeadForm = \<lparr>firstName = ''Jane'', lastName = ''Doe'',
                  email = CHR 0xA0 # '' a@b.c'', department = []\<rparr>"

definition fiveSeven :: app where
  "fiveSeven = loadUsers initialApp (Response 200 [raw 5, raw 7])"

definition editFive :: "app \<times> request option" where
  "editFive = submitStart (openEditModal (Some 5) fiveSeven) janeForm"

definition putFive :: request where
  "putFive = Put 5 (fullPayload 5 (readForm janeForm)) (readForm janeForm)"

definition bigApp :: app where
  "bigApp = loadUsers initialApp (Response 200 [raw 9007199254740992])"

definition negApp :: app where
  "negApp = loadUsers initialApp (Response 200 [raw (- 5)])"

definition sevenEight :: app where
  "sevenEight = loadUsers initialApp (Response 200 [raw 7, raw 8])"

section \<open>Facts about the string functions\<close>

lemma startsWith_iff: "startsWith s p \<longleftrightarrow> (\<exists>post. s = p @ post)"
  by (induction s p rule: startsWith.induct) auto

lemma includes_iff: "str_includes hay needle \<longleftrightarrow> (\<exists>pre post. hay = pre @ needle @ post)"
proof (induction hay)
  case Nil
  then show ?case by auto
next
  case (Cons c cs)
  show ?case
  proof
    assume "str_includes (c # cs) needle"
    then consider "startsWith (c # cs) needle" | "str_includes cs needle" by auto
    then show "\<exists>pre post. c # cs = pre @ needle @ post"
    proof cases
      case 1
      then obtain post where "c # cs = needle @ post" by (auto simp: startsWith_iff)
      then have "c # cs = [] @ needle @ post" by simp
      then show ?thesis by blast
    next
      case 2
      then obtain pre post where "cs = pre @ needle @ post" using Cons.IH by blast
      then have "c # cs = (c # pre) @ needle @ post" by simp
      then show ?thesis by blast
    qed
  next
    assume "\<exists>pre post. c # cs = pre @ needle @ post"
    then obtain pre post where eq: "c # cs = pre @ needle @ post" by blast
    show "str_includes (c # cs) needle"
    proof (cases pre)
      case Nil
      with eq have "startsWith (c # cs) needle" by (auto simp: startsWith_iff)
      then show ?thesis by simp
    next
      case (Cons d ds)
      with eq have "cs = ds @ needle @ post" by simp
      then have "str_includes cs needle" using Cons.IH by blast
      then show ?thesis by simp
    qed
  qed
qed

lemma filterCallback_iff:
  "filterCallback fl (toLowerCase (trim q)) u \<longleftrightarrow> satisfiesAll fl q u"
  by (simp add: filterCallback_def satisfiesAll_def containsCI_def includes_iff
      toLowerCase_def Let_def)

section \<open>Facts about the comparator and the sort\<close>

lemma strLess_lexord: "strLess x y \<longleftrightarrow> (x, y) \<in> lexord charLess"
  by (induction x y rule: strLess.induct) (auto simp: charLess_def)

lemma strLess_irrefl: "\<not> strLess x x"
  by (induction x) auto

lemma strLess_trans: "strLess x y \<Longrightarrow> strLess y z \<Longrightarrow> strLess x z"
proof (induction x y arbitrary: z rule: strLess.induct)
  case (4 x xs y ys)
  then show ?case by (cases z) auto
qed (auto elim: strLess.elims)

lemma strLess_total: "\<not> strLess x y \<Longrightarrow> \<not> strLess y x \<Longrightarrow> x = y"
proof (induction x y rule: strLess.induct)
  case (4 x xs y ys)
  then have "(of_char x :: nat) = of_char y" by auto
  then have "x = y" by simp
  with 4 show ?case by auto
qed auto

lemma lessVal_irrefl: "\<not> lessVal v v"
  by (cases v) (auto simp: strLess_irrefl)

lemma lessVal_trans: "lessVal u v \<Longrightarrow> lessVal v w \<Longrightarrow> lessVal u w"
  by (cases u; cases v; cases w) (auto intro: strLess_trans)

lemma lessVal_asym: "lessVal u v \<Longrightarrow> \<not> lessVal v u"
  using lessVal_trans lessVal_irrefl by blast

lemma lessVal_sortValue_total:
  "\<not> lessVal (sortValue key a) (sortValue key b) \<Longrightarrow> \<not> lessVal (sortValue key b) (sortValue key a)
   \<Longrightarrow> sortValue key a = sortValue key b"
  by (auto simp: sortValue_def dest: strLess_total split: if_splits)

lemma lessVal_negtrans:
  assumes "\<not> lessVal (sortValue key b) (sortValue key a)"
    and "\<not> lessVal (sortValue key c) (sortValue key b)"
  shows "\<not> lessVal (sortValue key c) (sortValue key a)"
proof
  assume ca: "lessVal (sortValue key c) (sortValue key a)"
  show False
  proof (cases "lessVal (sortValue key a) (sortValue key b)")
    case True
    with ca have "lessVal (sortValue key c) (sortValue key b)" by (rule lessVal_trans)
    with assms(2) show False by simp
  next
    case False
    from this assms(1) have "sortValue key a = sortValue key b"
      by (rule lessVal_sortValue_total)
    with ca assms(2) show False by (simp only:)
  qed
qed

lemma keyLess_lessVal: "keyLess key a b \<longleftrightarrow> lessVal (sortValue key a) (sortValue key b)"
  by (simp add: keyLess_def sortValue_def strLess_lexord)

text \<open>Insertion with an arbitrary comparator.\<close>

lemma mset_insertBy: "mset (insertBy cmp x ys) = add_mset x (mset ys)"
  by (induction ys) auto

lemma mset_arraySort: "mset (arraySort cmp xs) = mset xs"
  by (induction xs) (auto simp: arraySort_def mset_insertBy)

lemma mset_sortStep: "mset (sortStep k dir xs) = mset xs"
  by (simp add: sortStep_def mset_arraySort split: option.splits)

lemma set_insertBy: "set (insertBy cmp x ys) = insert x (set ys)"
  by (induction ys) auto

lemma sorted_insertBy:
  assumes total: "\<And>a b. cmp a b \<le> 0 \<or> cmp b a \<le> 0"
    and trans: "\<And>a b c. cmp a b \<le> 0 \<Longrightarrow> cmp b c \<le> 0 \<Longrightarrow> cmp a c \<le> 0"
    and "sorted_wrt (\<lambda>a b. cmp a b \<le> 0) ys"
  shows "sorted_wrt (\<lambda>a b. cmp a b \<le> 0) (insertBy cmp x ys)"
  using assms(3)
proof (induction ys)
  case Nil
  then show ?case by simp
next
  case (Cons y ys)
  show ?case
  proof (cases "cmp x y \<le> 0")
    case True
    with Cons.prems trans show ?thesis by auto
  next
    case False
    with total have "cmp y x \<le> 0" by blast
    with False Cons show ?thesis by (auto simp: set_insertBy)
  qed
qed

lemma sorted_arraySort:
  assumes "\<And>a b. cmp a b \<le> 0 \<or> cmp b a \<le> 0"
    and "\<And>a b c. cmp a b \<le> 0 \<Longrightarrow> cmp b c \<le> 0 \<Longrightarrow> cmp a c \<le> 0"
  shows "sorted_wrt (\<lambda>a b. cmp a b \<le> 0) (arraySort cmp xs)"
proof (induction xs)
  case Nil
  then show ?case by (simp add: arraySort_def)
next
  case (Cons x xs)
  have "arraySort cmp (x # xs) = insertBy cmp x (arraySort cmp xs)"
    by (simp add: arraySort_def)
  with Cons assms show ?case by (simp add: sorted_insertBy)
qed

lemma filter_insertBy:
  assumes "\<And>y. P x \<Longrightarrow> P y \<Longrightarrow> cmp x y \<le> 0"
  shows "filter P (insertBy cmp x ys) = filter P (x # ys)"
  using assms by (induction ys) auto

lemma filter_arraySort:
  assumes "\<And>x y. P x \<Longrightarrow> P y \<Longrightarrow> cmp x y \<le> 0"
  shows "filter P (arraySort cmp xs) = filter P xs"
proof (induction xs)
  case Nil
  then show ?case by (simp add: arraySort_def)
next
  case (Cons x xs)
  have "filter P (arraySort cmp (x # xs)) = filter P (x # arraySort cmp xs)"
    using assms by (simp add: arraySort_def filter_insertBy)
  with Cons show ?case by simp
qed

text \<open>The comparator of the pipeline is a total preorder, and ties are records with equal keys.\<close>

lemma compareUsers_le:
  "compareUsers key dir a b \<le> 0 \<longleftrightarrow>
     (if 0 < dir then \<not> keyLess key b a else if dir < 0 then \<not> keyLess key a b else True)"
  using lessVal_asym [of "sortValue key a" "sortValue key b"]
  by (auto simp: compareUsers_def Let_def keyLess_lessVal)

lemma compareUsers_total: "compareUsers key dir a b \<le> 0 \<or> compareUsers key dir b a \<le> 0"
  using lessVal_asym [of "sortValue key a" "sortValue key b"]
  by (simp add: compareUsers_le keyLess_lessVal) blast

lemma compareUsers_trans:
  assumes "compareUsers key dir a b \<le> 0" and "compareUsers key dir b c \<le> 0"
  shows "compareUsers key dir a c \<le> 0"
proof -
  consider "0 < dir" | "dir < 0" | "dir = 0" by linarith
  then show ?thesis
  proof cases
    case 1
    with assms have "\<not> lessVal (sortValue key b) (sortValue key a)"
      and "\<not> lessVal (sortValue key c) (sortValue key b)"
      by (simp_all add: compareUsers_le keyLess_lessVal)
    then have "\<not> lessVal (sortValue key c) (sortValue key a)"
      by (rule lessVal_negtrans)
    with 1 show ?thesis by (simp add: compareUsers_le keyLess_lessVal)
  next
    case 2
    with assms have "\<not> lessVal (sortValue key a) (sortValue key b)"
      and "\<not> lessVal (sortValue key b) (sortValue key c)"
      by (simp_all add: compareUsers_le keyLess_lessVal)
    then have "\<not> lessVal (sortValue key a) (sortValue key c)"
      using lessVal_negtrans [of key b c a] by blast
    with 2 show ?thesis by (simp add: compareUsers_le keyLess_lessVal)
  next
    case 3
    then show ?thesis by (simp add: compareUsers_le)
  qed
qed

lemma compareUsers_sameKey:
  assumes "sameKey key u x" and "sameKey key u y"
  shows "compareUsers key dir x y \<le> 0"
proof -
  from assms have "\<not> lessVal (sortValue key x) (sortValue key u)"
    and "\<not> lessVal (sortValue key u) (sortValue key x)"
    and "\<not> lessVal (sortValue key y) (sortValue key u)"
    and "\<not> lessVal (sortValue key u) (sortValue key y)"
    by (simp_all add: sameKey_def keyLess_lessVal)
  then have "sortValue key x = sortValue key u" and "sortValue key y = sortValue key u"
    by (blast intro: lessVal_sortValue_total)+
  then show ?thesis
    by (simp add: compareUsers_def Let_def lessVal_irrefl)
qed

section \<open>Facts about the page count\<close>

lemma ceilDiv_ceiling:
  assumes "0 < p"
  shows "int (ceilDiv n p) = \<lceil>real n / real p\<rceil>"
proof -
  have "\<lceil>real n / real p\<rceil> = \<lceil>real_of_int (int n) / real_of_int (int p)\<rceil>" by simp
  also have "\<dots> = - ((- int n) div int p)"
    by (simp only: ceiling_divide_eq_div)
  also have "\<dots> = (if int (n mod p) = 0 then int (n div p) else int (n div p) + 1)"
    using assms by (simp add: zdiv_zminus1_eq_if of_nat_mod of_nat_div)
  also have "\<dots> = int (ceilDiv n p)"
    by (simp add: ceilDiv_def)
  finally show ?thesis by simp
qed

lemma gtNum_totalPagesOf_one: "\<not> gtNum 1 (totalPagesOf n p)"
  by (simp add: totalPagesOf_def)

lemma users_applyAllFilters: "users (applyAllFilters s) = users s"
  by (simp add: applyAllFilters_def Let_def)

section \<open>Facts about the email check\<close>

lemma nullable_iff: "nullable r \<longleftrightarrow> [] \<in> lang r"
  by (induction r) (auto simp: conc_def intro: star_nil)

lemma star_cons:
  assumes "x \<in> star A" and "x = c # w"
  shows "\<exists>u v. w = u @ v \<and> c # u \<in> A \<and> v \<in> star A"
  using assms
proof (induction arbitrary: w rule: star.induct)
  case star_nil
  then show ?case by simp
next
  case (star_step u v)
  show ?case
  proof (cases u)
    case Nil
    with star_step show ?thesis by simp
  next
    case (Cons d us)
    with star_step.prems have "d = c" and "w = us @ v" by simp_all
    with Cons star_step.hyps show ?thesis by blast
  qed
qed

lemma deriv_star: "{w. c # w \<in> star A} = conc {w. c # w \<in> A} (star A)"
proof (rule set_eqI, rule iffI)
  fix w assume "w \<in> {w. c # w \<in> star A}"
  then obtain u v where "w = u @ v" "c # u \<in> A" "v \<in> star A"
    using star_cons [of "c # w" A c w] by blast
  then show "w \<in> conc {w. c # w \<in> A} (star A)" by (auto simp: conc_def)
next
  fix w assume "w \<in> conc {w. c # w \<in> A} (star A)"
  then obtain u v where "w = u @ v" "c # u \<in> A" "v \<in> star A" by (auto simp: conc_def)
  then have "(c # u) @ v \<in> star A" by (blast intro: star_step)
  with \<open>w = u @ v\<close> show "w \<in> {w. c # w \<in> star A}" by simp
qed

lemma deriv_conc:
  "{w. c # w \<in> conc A B} =
     conc {w. c # w \<in> A} B \<union> (if [] \<in> A then {w. c # w \<in> B} else {})"
  by (auto simp: conc_def Cons_eq_append_conv)

lemma lang_deriv: "lang (deriv c r) = {w. c # w \<in> lang r}"
proof (induction r)
  case (Seq r s)
  then show ?case by (simp add: deriv_conc nullable_iff)
next
  case (Star r)
  then show ?case by (simp add: deriv_star)
qed auto

lemma rxTest_iff: "rxTest r s \<longleftrightarrow> s \<in> lang r"
  by (induction s arbitrary: r) (simp_all add: nullable_iff lang_deriv)

lemma star_cls: "star {[c] | c. P c} = {w. \<forall>c \<in> set w. P c}"
proof (rule set_eqI, rule iffI)
  fix w assume "w \<in> star {[c] | c. P c}"
  then show "w \<in> {w. \<forall>c \<in> set w. P c}"
    by (induction rule: star.induct) auto
next
  fix w assume "w \<in> {w. \<forall>c \<in> set w. P c}"
  then have "\<forall>c \<in> set w. P c" by simp
  then show "w \<in> star {[c] | c. P c}"
  proof (induction w)
    case Nil
    show ?case by (rule star_nil)
  next
    case (Cons a w)
    then have "[a] \<in> {[c] | c. P c}" and "w \<in> star {[c] | c. P c}" by auto
    then have "[a] @ w \<in> star {[c] | c. P c}" by (rule star_step)
    then show ?case by simp
  qed
qed

lemma lang_Plus_Cls: "lang (Plus (Cls P)) = {w. w \<noteq> [] \<and> (\<forall>c \<in> set w. P c)}"
proof -
  have "lang (Plus (Cls P)) = conc {[c] | c. P c} {w. \<forall>c \<in> set w. P c}"
    by (simp add: Plus_def star_cls)
  also have "\<dots> = {w. w \<noteq> [] \<and> (\<forall>c \<in> set w. P c)}"
  proof (rule set_eqI, rule iffI)
    fix w assume "w \<in> conc {[c] | c. P c} {w. \<forall>c \<in> set w. P c}"
    then show "w \<in> {w. w \<noteq> [] \<and> (\<forall>c \<in> set w. P c)}"
      by (auto simp: conc_def)
  next
    fix w assume "w \<in> {w. w \<noteq> [] \<and> (\<forall>c \<in> set w. P c)}"
    then obtain a v where "w = [a] @ v" "P a" "\<forall>c \<in> set v. P c"
      by (cases w) auto
    then show "w \<in> conc {[c] | c. P c} {w. \<forall>c \<in> set w. P c}"
      unfolding conc_def by blast
  qed
  finally show ?thesis .
qed

lemma lang_Chr: "lang (Chr c) = {[c]}"
  by (auto simp: Chr_def)

lemma concI: "u \<in> A \<Longrightarrow> v \<in> B \<Longrightarrow> u @ v \<in> conc A B"
  unfolding conc_def by blast

lemma concE:
  assumes "w \<in> conc A B"
  obtains u v where "w = u @ v" and "u \<in> A" and "v \<in> B"
  using assms unfolding conc_def by blast

lemma lang_emailRx:
  "lang emailRx =
     conc (lang (Plus (Cls notSpaceAt)))
       (conc {''@''}
         (conc (lang (Plus (Cls notSpaceAt)))
           (conc {''.''} (lang (Plus (Cls notSpaceAt))))))"
  by (simp add: emailRx_def lang_Chr)

lemma validateEmail_iff: "validateEmail e \<longleftrightarrow> emailShape e"
proof
  let ?L = "lang (Plus (Cls notSpaceAt))"
  assume "validateEmail e"
  then have "e \<in> conc ?L (conc {''@''} (conc ?L (conc {''.''} ?L)))"
    by (simp add: validateEmail_def rxTest_iff lang_emailRx)
  then obtain l r1 where 1: "e = l @ r1" "l \<in> ?L"
    and r1: "r1 \<in> conc {''@''} (conc ?L (conc {''.''} ?L))"
    by (rule concE)
  from r1 obtain a r2 where 2: "r1 = a @ r2" "a \<in> {''@''}"
    and r2: "r2 \<in> conc ?L (conc {''.''} ?L)"
    by (rule concE)
  from r2 obtain d r3 where 3: "r2 = d @ r3" "d \<in> ?L" and r3: "r3 \<in> conc {''.''} ?L"
    by (rule concE)
  from r3 obtain b t where 4: "r3 = b @ t" "b \<in> {''.''}" "t \<in> ?L"
    by (rule concE)
  from 1 2 3 4 have e: "e = l @ ''@'' @ d @ ''.'' @ t" by simp
  from 1 3 4 have "l \<noteq> []" "d \<noteq> []" "t \<noteq> []"
    and "\<forall>c \<in> set (l @ d @ t). \<not> isSpace c \<and> c \<noteq> CHR ''@''"
    by (auto simp: lang_Plus_Cls notSpaceAt_def)
  with e show "emailShape e"
    unfolding emailShape_def by blast
next
  let ?L = "lang (Plus (Cls notSpaceAt))"
  assume "emailShape e"
  then obtain l d t where e: "e = l @ ''@'' @ d @ ''.'' @ t"
    and ne: "l \<noteq> []" "d \<noteq> []" "t \<noteq> []"
    and cs: "\<forall>c \<in> set (l @ d @ t). \<not> isSpace c \<and> c \<noteq> CHR ''@''"
    unfolding emailShape_def by (elim exE conjE)
  from ne cs have l: "l \<in> ?L" and d: "d \<in> ?L" and t: "t \<in> ?L"
    by (simp_all add: lang_Plus_Cls notSpaceAt_def)
  have dot: "''.'' \<in> {''.''}" and at: "''@'' \<in> {''@''}"
    by simp_all
  have "l @ ''@'' @ d @ ''.'' @ t \<in> conc ?L (conc {''@''} (conc ?L (conc {''.''} ?L)))"
    by (rule concI [OF l concI [OF at concI [OF d concI [OF dot t]]]])
  then have "e \<in> lang emailRx"
    by (simp only: e lang_emailRx)
  then show "validateEmail e"
    by (simp only: validateEmail_def rxTest_iff)
qed

section \<open>Facts about splitting at white space\<close>

lemma tokens_block:
  assumes "cur \<noteq> []" and "\<forall>c \<in> set cur. \<not> isSpace c" and "s = [] \<or> isSpace (hd s)"
  shows "tokens (cur @ s) = cur # tokens s"
proof -
  from assms(1) obtain a as where cur: "cur = a # as" by (cases cur) auto
  with assms(2) have a: "\<not> isSpace a" and as: "\<And>x. x \<in> set as \<Longrightarrow> \<not> isSpace x" by auto
  have tw: "takeWhile (\<lambda>d. \<not> isSpace d) s = []" and dw: "dropWhile (\<lambda>d. \<not> isSpace d) s = s"
    using assms(3) by (cases s; auto)+
  have "takeWhile (\<lambda>d. \<not> isSpace d) (as @ s) = as"
    using as tw by (simp add: takeWhile_append2)
  moreover have "dropWhile (\<lambda>d. \<not> isSpace d) (as @ s) = s"
    using as dw by (simp add: dropWhile_append2)
  ultimately show ?thesis using a by (simp add: cur)
qed

lemma tokens_dropWhile: "tokens (dropWhile isSpace s) = tokens s"
  by (induction s) auto

lemma tokens_spaces: "\<forall>c \<in> set ws. isSpace c \<Longrightarrow> tokens ws = []"
  by (induction ws) auto

lemma tokens_append_spaces:
  assumes "\<forall>c \<in> set ws. isSpace c"
  shows "tokens (s @ ws) = tokens s"
proof (induction s rule: tokens.induct)
  case 1
  then show ?case using assms by (simp add: tokens_spaces)
next
  case (2 c cs)
  show ?case
  proof (cases "isSpace c")
    case True
    with 2 show ?thesis by simp
  next
    case False
    let ?P = "\<lambda>d. \<not> isSpace d"
    have ws: "takeWhile ?P ws = []" "dropWhile ?P ws = ws"
      using assms by (cases ws; auto)+
    show ?thesis
    proof (cases "\<forall>x \<in> set cs. ?P x")
      case True
      then have app: "takeWhile ?P (cs @ ws) = cs" "dropWhile ?P (cs @ ws) = ws"
        using ws by (simp_all add: takeWhile_append2 dropWhile_append2)
      from True have whole: "takeWhile ?P cs = cs" "dropWhile ?P cs = []"
        by (simp_all add: takeWhile_eq_all_conv dropWhile_eq_Nil_conv)
      have "tokens ((c # cs) @ ws)
              = (c # takeWhile ?P (cs @ ws)) # tokens (dropWhile ?P (cs @ ws))"
        using False by simp
      also have "\<dots> = (c # cs) # tokens ws" by (simp only: app)
      also have "\<dots> = [c # cs]" using assms by (simp add: tokens_spaces)
      finally have lhs: "tokens ((c # cs) @ ws) = [c # cs]" .
      have "tokens (c # cs) = (c # takeWhile ?P cs) # tokens (dropWhile ?P cs)"
        using False by simp
      also have "\<dots> = [c # cs]" by (simp only: whole tokens.simps)
      finally show ?thesis using lhs by simp
    next
      case nall: False
      then obtain x where "x \<in> set cs" "\<not> ?P x" by blast
      then have "takeWhile ?P (cs @ ws) = takeWhile ?P cs"
        "dropWhile ?P (cs @ ws) = dropWhile ?P cs @ ws"
        by (simp_all add: takeWhile_append1 dropWhile_append1)
      with False 2 show ?thesis by simp
    qed
  qed
qed

lemma tokens_trim: "tokens (trim s) = tokens s"
proof -
  let ?t = "dropWhile isSpace s"
  have "?t = rev (dropWhile isSpace (rev ?t)) @ rev (takeWhile isSpace (rev ?t))"
    by (metis rev_append rev_rev_ident takeWhile_dropWhile_id)
  moreover have "\<forall>c \<in> set (rev (takeWhile isSpace (rev ?t))). isSpace c"
    by (auto dest: set_takeWhileD)
  ultimately have "tokens ?t = tokens (rev (dropWhile isSpace (rev ?t)))"
    using tokens_append_spaces by metis
  then show ?thesis by (simp add: trim_def tokens_dropWhile)
qed

lemma splitWs_tokens:
  assumes "\<forall>c \<in> set cur. \<not> isSpace c" and "noTrail s"
    and "cur \<noteq> [] \<or> s \<noteq> []" and "cur = [] \<longrightarrow> s = [] \<or> \<not> isSpace (hd s)"
  shows "splitWs cur s = tokens (cur @ s)"
  using assms
proof (induction cur s rule: splitWs.induct)
  case (1 cur)
  then show ?case using tokens_block [of cur "[]"] by simp
next
  case (2 cur c cs)
  show ?case
  proof (cases "isSpace c")
    case True
    let ?s' = "dropWhile isSpace cs"
    from True "2.prems" have cur: "cur \<noteq> []" by auto
    from "2.prems"(2) have "\<not> isSpace (last (c # cs))" by (simp add: noTrail_def)
    with True have cs: "cs \<noteq> []" "\<not> isSpace (last cs)" by (auto split: if_splits)
    then have ne: "?s' \<noteq> []" by (metis dropWhile_eq_Nil_conv last_in_set)
    then have hd: "\<not> isSpace (hd ?s')" by (rule hd_dropWhile)
    have "last ?s' = last cs"
      using ne by (metis last_appendR takeWhile_dropWhile_id)
    with cs have nt: "noTrail ?s'" by (simp add: noTrail_def)
    have "splitWs [] ?s' = tokens ([] @ ?s')"
      using True ne hd nt by (intro "2.IH"(1)) auto
    then have "splitWs cur (c # cs) = cur # tokens cs"
      using True by (simp add: tokens_dropWhile)
    also have "\<dots> = cur # tokens (c # cs)" using True by simp
    also have "\<dots> = tokens (cur @ c # cs)"
      using tokens_block [of cur "c # cs"] cur "2.prems"(1) True by simp
    finally show ?thesis .
  next
    case False
    have "noTrail cs" using "2.prems"(2) by (auto simp: noTrail_def split: if_splits)
    then have "splitWs (cur @ [c]) cs = tokens ((cur @ [c]) @ cs)"
      using False "2.prems"(1) by (intro "2.IH"(2)) auto
    with False show ?thesis by simp
  qed
qed

lemma trim_noTrail: "noTrail (trim s)"
proof -
  have "rev (trim s) = dropWhile isSpace (rev (dropWhile isSpace s))"
    by (simp add: trim_def)
  then have "rev (trim s) = [] \<or> \<not> isSpace (hd (rev (trim s)))"
    by (metis hd_dropWhile)
  then show ?thesis
    by (auto simp: noTrail_def hd_rev)
qed

lemma trim_hd: "trim s = [] \<or> \<not> isSpace (hd (trim s))"
proof (cases "trim s = []")
  case False
  let ?t = "dropWhile isSpace s"
  have t: "trim s = rev (dropWhile isSpace (rev ?t))" by (simp add: trim_def)
  have "?t \<noteq> []"
  proof
    assume "?t = []"
    with t have "trim s = []" by simp
    with False show False by simp
  qed
  then have h: "\<not> isSpace (hd ?t)" by (rule hd_dropWhile)
  have "?t = trim s @ rev (takeWhile isSpace (rev ?t))"
    unfolding t by (metis rev_append rev_rev_ident takeWhile_dropWhile_id)
  with False have "hd ?t = hd (trim s)" by (metis hd_append2)
  with h show ?thesis by simp
qed simp

lemma splitWs_trim: "trim s \<noteq> [] \<Longrightarrow> splitWs [] (trim s) = tokens s"
  using splitWs_tokens [of "[]" "trim s"] trim_noTrail [of s] trim_hd [of s]
  by (simp add: tokens_trim)

lemma tokens_Nil_trim: "trim s = [] \<Longrightarrow> tokens s = []"
  using tokens_trim [of s] by simp

lemma splitName_tokens:
  "splitName full =
     (let n = (case full of None \<Rightarrow> [] | Some f \<Rightarrow> f)
      in (case tokens n of [] \<Rightarrow> [] | t # _ \<Rightarrow> t, join '' '' (tl (tokens n))))"
proof (cases full)
  case None
  then show ?thesis by (simp add: splitName_def)
next
  case (Some f)
  show ?thesis
  proof (cases "trim f = []")
    case True
    then have "tokens f = []" by (rule tokens_Nil_trim)
    with True Some show ?thesis by (simp add: splitName_def Let_def)
  next
    case False
    then have "f \<noteq> []" by (auto simp: trim_def)
    moreover from False have "splitWs [] (trim f) = tokens f" by (rule splitWs_trim)
    ultimately show ?thesis using Some by (simp add: splitName_def drop_Suc Let_def)
  qed
qed

section \<open>Facts about the handlers\<close>

lemma validate_reject:
  assumes "trim (firstName f) = [] \<or> \<not> emailShape (trim (email f))"
  shows "validate (readForm f) \<noteq> None"
  using assms by (auto simp: validate_def readForm_def validateEmail_iff)


lemma submitStart_reject:
  "validate (readForm f) = Some m \<Longrightarrow> submitStart a f = (a\<lparr>formError := Some m\<rparr>, None)"
  by (simp add: submitStart_def Let_def)

lemma submitStart_put:
  assumes "validate (readForm f) = None" and "editingId a = Some eid" and "eid \<noteq> 0"
  shows "submitStart a f
           = (a\<lparr>formError := None\<rparr>, Some (Put eid (fullPayload eid (readForm f)) (readForm f)))"
  using assms by (simp add: submitStart_def Let_def)

lemma submitStart_post:
  assumes "validate (readForm f) = None" and "\<not> editing a"
  shows "submitStart a f = (a\<lparr>formError := None\<rparr>, Some (Post (readForm f)))"
  using assms by (auto simp: submitStart_def Let_def editing_def split: option.splits)

lemma users_submitFinish_put:
  assumes "ok status"
  shows "users (st (submitFinish a (Put eid payload d) (Response status body)))
           = map (\<lambda>u. if user_id u = numberOf (editingId a) then withId eid d else u)
               (users (st a))"
  using assms by (simp add: submitFinish_def closeEditModal_def users_applyAllFilters)

lemma st_submitFinish_post:
  assumes "ok status"
  shows "st (submitFinish a (Post d) (Response status retId))
           = applyAllFilters
               ((st a)\<lparr>users := withId (newIdOf retId (users (st a))) d # users (st a)\<rparr>)"
  using assms by (simp add: submitFinish_def closeEditModal_def Let_def)

lemma users_submitFinish_failed:
  assumes "res = NetworkError \<or> (\<exists>status body. res = Response status body \<and> \<not> ok status)"
  shows "users (st (submitFinish a r res)) = users (st a)"
  using assms by (auto simp: submitFinish_def split: request.splits)

lemma foldl_max_Max: "foldl max (a :: int) xs = Max (insert a (set xs))"
proof (induction xs arbitrary: a)
  case Nil
  then show ?case by simp
next
  case (Cons x xs)
  have "Max (insert (max a x) (set xs)) = Max (insert a (insert x (set xs)))"
  proof (cases "set xs = {}")
    case True
    then show ?thesis by (simp add: max.commute)
  next
    case False
    then show ?thesis by (simp add: max.assoc)
  qed
  with Cons show ?case by simp
qed


lemma maxId_greatestId: "maxId us = greatestId us"
  by (simp add: maxId_def greatestId_def foldl_max_Max)

lemma greatestId_ge: "u \<in> set us \<Longrightarrow> user_id u \<le> greatestId us"
  by (simp add: greatestId_def)

lemma addOne_exact: "x < 2 ^ 53 \<Longrightarrow> addOne x = x + 1"
  by (simp add: addOne_def)

lemma newIdOf_specNewId:
  assumes "retId = None \<or> retId = Some 0 \<longrightarrow> greatestId us < 2 ^ 53"
  shows "newIdOf retId us = specNewId retId us"
  using assms
  by (auto simp: newIdOf_def specNewId_def maxId_greatestId addOne_exact split: option.splits)

lemma map_user_id_replace:
  "map user_id (map (\<lambda>u. if user_id u = eid then withId eid d else u) us) = map user_id us"
  by (induction us) (simp_all add: withId_def)

lemma user_id_makeUserFromAPI: "user_id (makeUserFromAPI u) = api_id u"
  by (simp add: makeUserFromAPI_def split_beta Let_def)


lemma map_user_id_makeUserFromAPI: "map user_id (map makeUserFromAPI data) = map api_id data"
  by (induction data) (simp_all add: user_id_makeUserFromAPI)


lemma newIdOf_fresh:
  assumes "case retId of
             None \<Rightarrow> greatestId us < 2 ^ 53
           | Some i \<Rightarrow> if i = 0 then greatestId us < 2 ^ 53 else i \<notin> user_id ` set us"
  shows "newIdOf retId us \<notin> user_id ` set us"
proof -
  have fresh: "greatestId us + 1 \<notin> user_id ` set us"
    using greatestId_ge [of _ us] by fastforce
  show ?thesis
  proof (cases "retId = None \<or> retId = Some 0")
    case True
    with assms have "greatestId us < 2 ^ 53" by auto
    with True have "newIdOf retId us = greatestId us + 1"
      by (auto simp: newIdOf_def maxId_greatestId addOne_exact)
    with fresh show ?thesis by simp
  next
    case False
    then obtain i where "retId = Some i" "i \<noteq> 0" by (cases retId) auto
    with assms show ?thesis by (simp add: newIdOf_def)
  qed
qed

text \<open>
  An update whose form still edits the same record when the response arrives
  replaces the records with that identifier and no other.
\<close>

lemma update_same_row:
  assumes "ok status" and "editingId a = Some eid"
  shows "users (st (submitFinish a (Put eid payload d) (Response status body)))
           = map (\<lambda>u. if user_id u = eid then withId eid d else u) (users (st a))"
  using assms by (simp add: users_submitFinish_put numberOf_def)

section \<open>The view pipeline\<close>

text \<open>
  C1. For every collection, filter set and search term, the filter step of the
  pipeline returns exactly the records of the collection, in collection order, that
  satisfy the four case-insensitive substring filters (an empty filter imposing no
  constraint) and, when the trimmed search term is non-empty, whose four display
  fields joined by single spaces contain that term case-insensitively. The list the
  recompute stores holds these same records, and holds them in collection order when
  no sort key is set.
\<close>

theorem C1_filter_exact:
  "filterStep us fl q = filter (satisfiesAll fl q) us
   \<and> mset (filtered (applyAllFilters s))
       = mset (filter (satisfiesAll (filters s) (search s)) (users s))
   \<and> filtered (applyAllFilters (s\<lparr>sortKey := None\<rparr>))
       = filter (satisfiesAll (filters s) (search s)) (users s)"
proof -
  have step: "filterStep xs f r = filter (satisfiesAll f r) xs" for xs f r
    unfolding filterStep_def Let_def
    by (rule filter_cong) (simp_all add: filterCallback_iff)
  have "filtered (applyAllFilters s)
          = sortStep (sortKey s) (sortDir s) (filter (satisfiesAll (filters s) (search s)) (users s))"
    by (simp add: applyAllFilters_def Let_def step)
  then have "mset (filtered (applyAllFilters s))
          = mset (filter (satisfiesAll (filters s) (search s)) (users s))"
    by (simp only: mset_sortStep)
  moreover have "filtered (applyAllFilters (s\<lparr>sortKey := None\<rparr>))
          = filter (satisfiesAll (filters s) (search s)) (users s)"
    by (simp add: applyAllFilters_def Let_def step sortStep_def)
  ultimately show ?thesis using step by blast
qed

theorem C1_filter_exact_witness:
  "filter (satisfiesAll widgetFilter ''  JANE '') [bob, jane, amy] = [jane]
   \<and> filter (satisfiesAll accentFilter (CHR 0xA0 # '' ROY'')) [bob, elodie, jane] = [elodie]"
proof -
  have "filterStep [bob, jane, amy] widgetFilter ''  JANE '' = [jane]"
    by code_simp
  moreover have "filterStep [bob, elodie, jane] accentFilter (CHR 0xA0 # '' ROY'') = [elodie]"
    by code_simp
  ultimately show ?thesis
    using C1_filter_exact [of "[bob, jane, amy]" widgetFilter "''  JANE ''", THEN conjunct1]
      C1_filter_exact [of "[bob, elodie, jane]" accentFilter "CHR 0xA0 # '' ROY''",
        THEN conjunct1]
    by simp
qed

text \<open>
  C2. For a page size \<open>p \<ge> 1\<close> and a prior page number \<open>\<ge> 1\<close>, after the recompute
  the page count is \<open>max(1, ceil(n / p))\<close>, with \<open>n\<close> the length of the filtered list,
  and the page number lies between 1 and the page count.
\<close>

theorem C2_page_window:
  assumes "1 \<le> perPage s" and "1 \<le> page s"
  shows "\<exists>t. totalPages (applyAllFilters s) = Fin t
           \<and> int t = max 1 \<lceil>real (length (filtered (applyAllFilters s))) / real (perPage s)\<rceil>
           \<and> 1 \<le> page (applyAllFilters s) \<and> page (applyAllFilters s) \<le> t"
proof -
  define n where "n = length (filtered (applyAllFilters s))"
  define t where "t = max 1 (ceilDiv n (perPage s))"
  have n: "n = length (sortStep (sortKey s) (sortDir s)
                        (filterStep (users s) (filters s) (search s)))"
    by (simp add: n_def applyAllFilters_def Let_def)
  have tp: "totalPages (applyAllFilters s) = Fin t"
    using assms(1) by (simp add: applyAllFilters_def Let_def totalPagesOf_def t_def n)
  have "int t = max 1 (int (ceilDiv n (perPage s)))"
    by (simp add: t_def)
  also have "\<dots> = max 1 \<lceil>real n / real (perPage s)\<rceil>"
    using assms(1) by (simp add: ceilDiv_ceiling)
  finally have t: "int t = max 1 \<lceil>real n / real (perPage s)\<rceil>" .
  have pg: "page (applyAllFilters s) = (if t < page s then 1 else page s)"
    using assms(1) by (simp add: applyAllFilters_def Let_def totalPagesOf_def t_def n)
  have "1 \<le> t" by (simp add: t_def)
  with pg assms(2) have "1 \<le> page (applyAllFilters s) \<and> page (applyAllFilters s) \<le> t"
    by auto
  with tp t show ?thesis unfolding n_def by blast
qed


theorem C2_page_window_witness:
  "1 \<le> perPage twelve \<and> 1 \<le> page twelve
   \<and> totalPages (applyAllFilters twelve) = Fin 2 \<and> page (applyAllFilters twelve) = 1"
proof -
  have h: "1 \<le> perPage twelve" "1 \<le> page twelve"
    by (simp_all add: twelve_def)
  have len: "length (filtered (applyAllFilters twelve)) = 12"
    by code_simp
  have pg: "page (applyAllFilters twelve) = 1"
    by code_simp
  have "\<lceil>real 12 / real 10\<rceil> = (2 :: int)"
    by (simp add: ceiling_eq_iff)
  with C2_page_window [OF h] len pg h show ?thesis
    by (auto simp: twelve_def)
qed


text \<open>
  C3. With a sort key set, the list the recompute stores is the stable sort of the
  filtered list under the key's collation (strings case-insensitively and
  lexicographically, the identifier numerically): the same records, in ascending
  order for a positive direction and in descending order for a negative one, the
  records with equal keys in the order the filter left them in. With no sort key the
  stored list is the filtered list as it is.
\<close>

theorem C3_stable_sort:
  assumes "sortKey s = Some key" and "key \<noteq> []" and "sortDir s \<noteq> 0"
  shows "mset (filtered (applyAllFilters s))
           = mset (filterStep (users s) (filters s) (search s))
         \<and> sorted_wrt (\<lambda>a b. \<not> (if 0 < sortDir s then keyLess key b a else keyLess key a b))
              (filtered (applyAllFilters s))
         \<and> (\<forall>u. filter (sameKey key u) (filtered (applyAllFilters s))
                = filter (sameKey key u) (filterStep (users s) (filters s) (search s)))
         \<and> filtered (applyAllFilters (s\<lparr>sortKey := None\<rparr>))
             = filterStep (users s) (filters s) (search s)"
proof -
  let ?cmp = "compareUsers key (sortDir s)"
  let ?F = "filterStep (users s) (filters s) (search s)"
  have step: "filtered (applyAllFilters s) = arraySort ?cmp ?F"
    using assms(1,2) by (simp add: applyAllFilters_def Let_def sortStep_def)
  have le: "(\<lambda>a b. ?cmp a b \<le> 0)
            = (\<lambda>a b. \<not> (if 0 < sortDir s then keyLess key b a else keyLess key a b))"
    using assms(3) by (intro ext) (simp add: compareUsers_le)
  have "sorted_wrt (\<lambda>a b. ?cmp a b \<le> 0) (arraySort ?cmp ?F)"
    by (rule sorted_arraySort) (rule compareUsers_total, rule compareUsers_trans)
  then have sorted:
    "sorted_wrt (\<lambda>a b. \<not> (if 0 < sortDir s then keyLess key b a else keyLess key a b))
       (filtered (applyAllFilters s))"
    by (simp only: le step)
  have stable: "filter (sameKey key u) (filtered (applyAllFilters s)) = filter (sameKey key u) ?F"
    for u
    unfolding step by (rule filter_arraySort) (rule compareUsers_sameKey)
  have none: "filtered (applyAllFilters (s\<lparr>sortKey := None\<rparr>)) = ?F"
    by (simp add: applyAllFilters_def Let_def sortStep_def)
  have perm: "mset (filtered (applyAllFilters s)) = mset ?F"
    by (simp only: step mset_arraySort)
  from perm sorted stable none show ?thesis by blast
qed

theorem C3_stable_sort_witness:
  "filtered (applyAllFilters byFirstDown) = [jane, bob, amy2, amy]
   \<and> (\<forall>u. filter (sameKey ''first'' u) [jane, bob, amy2, amy]
          = filter (sameKey ''first'' u) [bob, amy2, jane, amy])
   \<and> filtered (applyAllFilters byFirstUp) = [agnes, elodie]"
proof -
  have ev: "filtered (applyAllFilters byFirstDown) = [jane, bob, amy2, amy]"
    "filterStep (users byFirstDown) (filters byFirstDown) (search byFirstDown)
       = [bob, amy2, jane, amy]"
    "filtered (applyAllFilters byFirstUp) = [agnes, elodie]"
    by code_simp+
  have "sortKey byFirstDown = Some ''first''" and "''first'' \<noteq> []"
    and "sortDir byFirstDown \<noteq> 0"
    by (simp_all add: byFirstDown_def)
  from C3_stable_sort [OF this] ev show ?thesis
    by simp
qed

text \<open>
  C10. The recompute is idempotent: run twice in succession on unchanged inputs it
  leaves the same state (filtered list, page count, page number) and renders the same
  table as run once.
\<close>

theorem C10_recompute_idempotent:
  "applyAllFilters (applyAllFilters s) = applyAllFilters s
   \<and> renderTable (applyAllFilters (applyAllFilters s)) = renderTable (applyAllFilters s)"
  by (simp add: applyAllFilters_def Let_def gtNum_totalPagesOf_one)


section \<open>The local collection\<close>

text \<open>
  C4, as the code has it. Identifiers that are unique stay unique through every
  delete; through an update when the form still edits the same record at the time of
  the response; through a create when the service returns an identifier other than 0
  that no local record has, or returns none (or 0) while the greatest local
  identifier is below \<open>2^53\<close>; and through the initial load when the records of the
  service have unique identifiers.
\<close>

theorem C4_ids_unique_amended:
  assumes "idsUnique a"
  shows "idsUnique (deleteUser a i confirmed dres)
         \<and> (regular a r sres \<longrightarrow> idsUnique (submitFinish a r sres))
         \<and> ((\<forall>status data. lres = Response status data \<longrightarrow> distinct (map api_id data))
              \<longrightarrow> idsUnique (loadUsers a lres))"
proof (intro conjI impI)
  show "idsUnique (deleteUser a i confirmed dres)"
    using assms
    by (auto simp: idsUnique_def deleteUser_def users_applyAllFilters distinct_map_filter
        split: response.splits)
next
  assume reg: "regular a r sres"
  show "idsUnique (submitFinish a r sres)"
  proof (cases "sres = NetworkError \<or> (\<exists>status body. sres = Response status body \<and> \<not> ok status)")
    case True
    then have "users (st (submitFinish a r sres)) = users (st a)"
      by (rule users_submitFinish_failed)
    with assms show ?thesis by (simp add: idsUnique_def)
  next
    case False
    then obtain status retId where res: "sres = Response status retId" and ok: "ok status"
      by (cases sres) auto
    show ?thesis
    proof (cases r)
      case (Put eid payload d)
      with reg have "editingId a = Some eid" by (simp add: regular_def)
      with ok have "users (st (submitFinish a (Put eid payload d) (Response status retId)))
          = map (\<lambda>u. if user_id u = eid then withId eid d else u) (users (st a))"
        by (rule update_same_row)
      with assms Put res show ?thesis
        by (simp only: idsUnique_def map_user_id_replace)
    next
      case (Post d)
      from reg have "case retId of
             None \<Rightarrow> greatestId (users (st a)) < 2 ^ 53
           | Some i \<Rightarrow> if i = 0 then greatestId (users (st a)) < 2 ^ 53
                       else i \<notin> user_id ` set (users (st a))"
        unfolding Post res regular_def by (simp only: request.case response.case)
      then have "newIdOf retId (users (st a)) \<notin> user_id ` set (users (st a))"
        by (rule newIdOf_fresh)
      with assms Post res ok show ?thesis
        by (simp add: idsUnique_def st_submitFinish_post users_applyAllFilters withId_def)
    qed
  qed
next
  assume h: "\<forall>status data. lres = Response status data \<longrightarrow> distinct (map api_id data)"
  show "idsUnique (loadUsers a lres)"
  proof (cases lres)
    case NetworkError
    with assms show ?thesis by (simp add: idsUnique_def loadUsers_def)
  next
    case (Response status data)
    with h have "distinct (map api_id data)" by blast
    then have "distinct (map user_id (map makeUserFromAPI data))"
      by (simp only: map_user_id_makeUserFromAPI)
    with Response assms show ?thesis
      by (simp add: idsUnique_def loadUsers_def users_applyAllFilters)
  qed
qed

theorem C4_ids_unique_amended_witness:
  "idsUnique afterLoad
   \<and> regular afterLoad (Post (readForm janeForm)) (Response 201 (Some 11))
   \<and> idsUnique (submitFinish afterLoad (Post (readForm janeForm)) (Response 201 (Some 11)))
   \<and> idsUnique (deleteUser afterLoad 1 True (Response 200 ()))"
proof -
  have 1: "idsUnique afterLoad" by code_simp
  have ids: "user_id ` set (users (st afterLoad)) = {1}" by code_simp
  have 2: "regular afterLoad (Post (readForm janeForm)) (Response 201 (Some 11))"
    by (simp add: regular_def ids)
  from C4_ids_unique_amended [OF 1, of 1 True "Response 200 ()" "Post (readForm janeForm)"
      "Response 201 (Some 11)"]
    1 2 show ?thesis by blast
qed

text \<open>
  C4 as stated fails: the service is free to return an identifier that is in use.
  After a load of one record and two creates that the service both answers with the
  identifier 11, two local records share it. And after a load of one record with the
  identifier \<open>2^53\<close>, a create that the service answers without an identifier gives
  the new record \<open>2^53\<close> again.
\<close>

theorem C4_ids_unique_counterexample:
  "map user_id (users (st afterTwoCreates)) = [11, 11, 1] \<and> \<not> idsUnique afterTwoCreates
   \<and> map user_id (users (st (submit bigApp janeForm (Response 201 None))))
       = [9007199254740992, 9007199254740992]"
  by code_simp

text \<open>
  C5, as the code has it. On a successful create the new record gets the identifier
  the service returned when there is one and it is not 0, otherwise one more than the
  greatest of 0 and the local identifiers, as long as that is below \<open>2^53\<close>; it is
  put in front of the local collection as it is when the response arrives, whose
  records stay as they were, and the view is recomputed.
\<close>

theorem C5_create_amended:
  assumes "validate (readForm f) = None" and "\<not> editing a" and "ok status"
    and "retId = None \<or> retId = Some 0 \<longrightarrow> greatestId (users (st a')) < 2 ^ 53"
  shows "\<exists>r. submitStart a f = (a\<lparr>formError := None\<rparr>, Some r)
             \<and> users (st (submitFinish a' r (Response status retId)))
                 = withId (specNewId retId (users (st a'))) (readForm f) # users (st a')
             \<and> st (submitFinish a' r (Response status retId))
                 = applyAllFilters
                     ((st a')\<lparr>users := withId (specNewId retId (users (st a'))) (readForm f)
                                          # users (st a')\<rparr>)"
proof -
  have start: "submitStart a f = (a\<lparr>formError := None\<rparr>, Some (Post (readForm f)))"
    using assms(1,2) by (rule submitStart_post)
  have "newIdOf retId (users (st a')) = specNewId retId (users (st a'))"
    using assms(4) by (rule newIdOf_specNewId)
  then have fin: "st (submitFinish a' (Post (readForm f)) (Response status retId))
      = applyAllFilters
          ((st a')\<lparr>users := withId (specNewId retId (users (st a'))) (readForm f)
                               # users (st a')\<rparr>)"
    using assms(3) by (simp add: st_submitFinish_post)
  then have "users (st (submitFinish a' (Post (readForm f)) (Response status retId)))
      = withId (specNewId retId (users (st a'))) (readForm f) # users (st a')"
    by (simp add: users_applyAllFilters)
  with start fin show ?thesis by blast
qed

theorem C5_create_amended_witness:
  "users (st (submit afterLoad janeForm (Response 201 (Some 11))))
     = withId 11 (readForm janeForm) # users (st afterLoad)
   \<and> users (st (submit afterLoad janeForm (Response 201 None)))
     = withId 2 (readForm janeForm) # users (st afterLoad)"
proof -
  have 1: "validate (readForm janeForm) = None" by code_simp
  have 2: "\<not> editing afterLoad" by code_simp
  have 3: "ok 201" by (simp add: ok_def)
  have ids: "user_id ` set (users (st afterLoad)) = {1}" by code_simp
  then have g: "greatestId (users (st afterLoad)) = 1" by (simp add: greatestId_def)
  have a1: "users (st (afterLoad\<lparr>formError := None\<rparr>)) = users (st afterLoad)" by simp
  have 4: "retId = None \<or> retId = Some 0
             \<longrightarrow> greatestId (users (st (afterLoad\<lparr>formError := None\<rparr>))) < 2 ^ 53"
    for retId :: "int option"
    by (simp add: g)
  have n: "specNewId (Some 11) (users (st afterLoad)) = 11"
    "specNewId None (users (st afterLoad)) = 2"
    by (simp_all add: specNewId_def g)
  from C5_create_amended [OF 1 2 3 4, of "Some 11"] C5_create_amended [OF 1 2 3 4, of None]
  show ?thesis by (auto simp: submit_def n)
qed

text \<open>
  C5 as stated fails in three places. A returned identifier 0 is not kept: with one
  local record, of identifier 1, the new record gets 2. When the service returns no
  identifier and the only local identifier is -5, the new record gets 1 and not -4.
  And when the only local identifier is \<open>2^53\<close>, the new record gets \<open>2^53\<close> too.
\<close>

theorem C5_create_counterexample:
  "users (st (submit afterLoad janeForm (Response 201 (Some 0))))
     = withId 2 (readForm janeForm) # users (st afterLoad)
   \<and> map user_id (users (st negApp)) = [- 5]
   \<and> users (st (submit negApp janeForm (Response 201 None)))
       = withId 1 (readForm janeForm) # users (st negApp)
   \<and> map user_id (users (st bigApp)) = [9007199254740992]
   \<and> users (st (submit bigApp janeForm (Response 201 None)))
       = withId 9007199254740992 (readForm janeForm) # users (st bigApp)"
  by code_simp

text \<open>
  C6. A confirmed delete removes from the local collection exactly the records with
  the given identifier when the response has a status from 200 to 299 (200 and 204
  among them); with any other status, or with no response at all, the collection is
  left as it was.
\<close>

theorem C6_delete:
  "users (st (deleteUser a i True (Response status body)))
     = (if 200 \<le> status \<and> status \<le> 299 then filter (\<lambda>u. user_id u \<noteq> i) (users (st a))
        else users (st a))
   \<and> users (st (deleteUser a i True NetworkError)) = users (st a)"
  by (auto simp: deleteUser_def ok_def users_applyAllFilters)


theorem C6_delete_witness:
  "users (st (deleteUser sevenEight 7 True (Response 500 ()))) = [numbered 7, numbered 8]
   \<and> users (st (deleteUser sevenEight 7 True (Response 204 ()))) = [numbered 8]"
proof -
  have "users (st sevenEight) = [numbered 7, numbered 8]"
    by code_simp
  then show ?thesis
    using C6_delete [of sevenEight 7 500 "()"] C6_delete [of sevenEight 7 204 "()"]
    by (simp add: numbered_def)
qed


text \<open>
  C7 fails in the code. The continuation of an update compares the identifiers with
  \<open>editingId\<close> as it is when the response arrives. With records 5 and 7, the form
  opened on record 5 and a valid form submitted, the request is a PUT for record 5.
  If the form is cancelled before the response, a successful response replaces no
  record; if the form is opened on record 7 before the response, record 7 is replaced
  by the submitted record, which carries the identifier 5, and record 5 is left as
  it was.
\<close>

theorem C7_update_race:
  "map user_id (users (st fiveSeven)) = [5, 7]
   \<and> snd editFive = Some putFive
   \<and> users (st (submitFinish (closeEditModal (fst editFive)) putFive (Response 200 None)))
       = users (st fiveSeven)
   \<and> users (st (submitFinish (openEditModal (Some 7) (fst editFive)) putFive (Response 200 None)))
       = [numbered 5, withId 5 (readForm janeForm)]"
  by code_simp

text \<open>
  C8. A submission of the form, for a new record or an edited one, whose trimmed
  first name is empty or whose trimmed email does not have the shape
  \<open>local-part@domain\<close> with a dot inside the domain, ends with a form error before
  any request is sent, and leaves the local collection unchanged whatever the remote
  service would have answered.
\<close>

theorem C8_validation_rejects:
  assumes "trim (firstName f) = [] \<or> \<not> emailShape (trim (email f))"
  shows "\<exists>m. submitStart a f = (a\<lparr>formError := Some m\<rparr>, None)
             \<and> (\<forall>res. submit a f res = a\<lparr>formError := Some m\<rparr>)
             \<and> (\<forall>res. users (st (submit a f res)) = users (st a))"
proof -
  from assms obtain m where "validate (readForm f) = Some m"
    using validate_reject by blast
  then have start: "submitStart a f = (a\<lparr>formError := Some m\<rparr>, None)"
    by (rule submitStart_reject)
  then have "submit a f res = a\<lparr>formError := Some m\<rparr>" for res
    by (simp add: submit_def)
  moreover from this have "users (st (submit a f res)) = users (st a)" for res
    by simp
  ultimately show ?thesis using start by blast
qed

theorem C8_validation_rejects_witness:
  "submitStart afterLoad blankForm = (afterLoad\<lparr>formError := Some FieldsRequired\<rparr>, None)
   \<and> submitStart afterLoad badMailForm = (afterLoad\<lparr>formError := Some InvalidEmail\<rparr>, None)
   \<and> submitStart afterLoad nbMailForm = (afterLoad\<lparr>formError := Some InvalidEmail\<rparr>, None)
   \<and> users (st (submit afterLoad badMailForm (Response 201 (Some 11)))) = users (st afterLoad)"
proof -
  have "\<not> validateEmail ''jane@mail''" by code_simp
  moreover have "trim (email badMailForm) = ''jane@mail''" by code_simp
  ultimately have "trim (firstName badMailForm) = [] \<or> \<not> emailShape (trim (email badMailForm))"
    by (simp add: validateEmail_iff)
  from C8_validation_rejects [OF this, of afterLoad]
  have "users (st (submit afterLoad badMailForm (Response 201 (Some 11)))) = users (st afterLoad)"
    by blast
  moreover have "validate (readForm blankForm) = Some FieldsRequired"
    "validate (readForm badMailForm) = Some InvalidEmail"
    "validate (readForm nbMailForm) = Some InvalidEmail"
    by code_simp+
  ultimately show ?thesis by (simp add: submitStart_reject)
qed

text \<open>
  An email that only has white space around it, a no-break space included, is
  trimmed and accepted, and the request is sent.
\<close>

lemma submitStart_trims_email:
  "snd (submitStart afterLoad nbLeadForm)
     = Some (Post \<lparr>d_first = ''Jane'', d_last = ''Doe'', d_email = ''a@b.c'',
                    d_department = []\<rparr>)"
  by code_simp

section \<open>The record normalizer, verified\<close>

text \<open>
  C9. The normalizer is a total function of the raw record: \<open>first\<close> is the first
  white-space-separated token of the name, \<open>last\<close> the remaining tokens joined by
  single spaces (both empty when there is no token or no name), \<open>email\<close> is the
  email or the empty string when it is missing, and \<open>department\<close> the name of the
  company when there is one, else the empty string.
\<close>

theorem C9_normalizer:
  "makeUserFromAPI u =
     (let n = (case api_name u of None \<Rightarrow> [] | Some f \<Rightarrow> f)
      in \<lparr>user_id = api_id u,
          user_first = (case tokens n of [] \<Rightarrow> [] | t # _ \<Rightarrow> t),
          user_last = join '' '' (tl (tokens n)),
          user_email = (case api_email u of None \<Rightarrow> [] | Some e \<Rightarrow> e),
          user_department =
            (case api_company u of
               None \<Rightarrow> []
             | Some c \<Rightarrow> (case company_name c of None \<Rightarrow> [] | Some d \<Rightarrow> d))\<rparr>)"
  by (simp add: makeUserFromAPI_def splitName_tokens Let_def)


theorem C9_normalizer_witness:
  "makeUserFromAPI leanne =
     \<lparr>user_id = 1, user_first = ''Leanne'', user_last = ''Graham Jr'', user_email = [],
      user_department = ''Romaguera''\<rparr>
   \<and> tokens ''Leanne  Graham Jr'' = [''Leanne'', ''Graham'', ''Jr'']
   \<and> makeUserFromAPI leanneNb =
     \<lparr>user_id = 2, user_first = ''Leanne'', user_last = ''Graham'', user_email = ''lg@x.org'',
      user_department = []\<rparr>"
proof -
  have "makeUserFromAPI leanne =
     \<lparr>user_id = 1, user_first = ''Leanne'', user_last = ''Graham Jr'', user_email = [],
      user_department = ''Romaguera''\<rparr>"
    by code_simp
  moreover have "tokens ''Leanne  Graham Jr'' = [''Leanne'', ''Graham'', ''Jr'']"
    by code_simp
  moreover have "makeUserFromAPI leanneNb =
     \<lparr>user_id = 2, user_first = ''Leanne'', user_last = ''Graham'', user_email = ''lg@x.org'',
      user_department = []\<rparr>"
    by code_simp
  ultimately show ?thesis using C9_normalizer [of leanne] by simp
qed

end
